theory Spec2Isabelle
  imports Main "HOL-Library.Multiset"
begin

section \<open>Mono-alphabetic substitution ciphers (simplesubstitution/Cipher.py)\<close>

text \<open>
  Python strings and lists of characters are modelled as \<^typ>\<open>string\<close> (character lists);
  both kinds of value are indexed, sliced and concatenated the same way by the code.
  The code tells a \<open>str\<close> from a list in one place only, the comparison of an
  alphabet with \<open>string.ascii_letters\<close>; the alphabets that can reach that comparison
  are values of \<open>alphabet\<close>, which records the kind. Keys are strings, as the docstrings
  say; \<open>None\<close> is modelled only where the code tests for it, for the optional plaintext
  alphabet of the builders.
  Every exception the code can raise is a value of \<open>error\<close>, and a function that may raise
  returns \<open>error + 'a\<close> with \<open>Inl\<close> for the exception. The specification's
  \<open>InvalidArgument\<close> is Python's \<open>ValueError\<close>, the only exception the code raises itself;
  \<open>IndexError\<close> and \<open>ZeroDivisionError\<close> are raised by the list subscript and by the
  integer modulo.
\<close>

datatype error = ValueError string | IndexError | ZeroDivisionError

definition is_ValueError :: "error + 'a \<Rightarrow> bool" where
  "is_ValueError r = (case r of Inl (ValueError m) \<Rightarrow> True | _ \<Rightarrow> False)"

subsection \<open>List primitives of Python\<close>

text \<open>
  \<open>xs.index(x)\<close> is the position of the first element equal to \<open>x\<close>; it raises
  \<open>ValueError\<close> when there is none, which is \<open>None\<close> here so that each caller decides what
  the exception does (some callers catch it).
\<close>

fun list_index :: "'a list \<Rightarrow> 'a \<Rightarrow> nat option" where
  "list_index [] x = None"
| "list_index (y # ys) x = (if y = x then Some 0 else map_option Suc (list_index ys x))"

text \<open>
  The message of the \<open>ValueError\<close> that an uncaught \<open>xs.index(x)\<close> raises, for a
  character that \<open>repr\<close> writes as itself between quotes.
\<close>

definition not_in_list :: "char \<Rightarrow> string" where
  "not_in_list x = [CHR 0x27, x, CHR 0x27] @ '' is not in list''"

text \<open>\<open>xs.pop(i)\<close> for \<open>i\<close> in range: the element removed and the list that is left.\<close>

definition list_pop :: "'a list \<Rightarrow> nat \<Rightarrow> 'a \<times> 'a list" where
  "list_pop xs i = (xs ! i, take i xs @ drop (Suc i) xs)"

subsection \<open>Alphabet constants\<close>

definition ascii_lowercase :: string where
  "ascii_lowercase = ''abcdefghijklmnopqrstuvwxyz''"

definition ascii_uppercase :: string where
  "ascii_uppercase = ''ABCDEFGHIJKLMNOPQRSTUVWXYZ''"

definition ascii_letters :: string where
  "ascii_letters = ascii_lowercase @ ascii_uppercase"

text \<open>
  An alphabet argument is a Python \<open>str\<close> or a Python list of characters. \<open>chars\<close> is
  \<open>list(alphabet)\<close>, the characters in order. Python's \<open>==\<close> never holds between a
  list and a \<open>str\<close>, and holds between two values of one kind when their characters
  agree: it is the equality of this datatype.
\<close>

datatype alphabet = PyStr string | PyList string

fun chars :: "alphabet \<Rightarrow> string" where
  "chars (PyStr s) = s"
| "chars (PyList s) = s"

text \<open>
  Slicing and \<open>+\<close> give a \<open>str\<close> from a \<open>str\<close> and a list from a list: \<open>same_kind a s\<close>
  is the sequence of the characters \<open>s\<close> of the kind of \<open>a\<close>.
\<close>

fun same_kind :: "alphabet \<Rightarrow> string \<Rightarrow> alphabet" where
  "same_kind (PyStr _) s = PyStr s"
| "same_kind (PyList _) s = PyList s"

text \<open>
  \<open>PRINTABLE_ASCII_ALPHABET = ['\t'] + [chr(x) for x in range(32, 127)]\<close>, a list.
\<close>

definition PRINTABLE_ASCII_ALPHABET :: alphabet where
  "PRINTABLE_ASCII_ALPHABET = PyList (CHR 0x09 # map char_of [32..<127::nat])"

text \<open>
  \<open>str.lower\<close> and \<open>str.upper\<close> belong to Python, not to the repository, and their Unicode
  case mapping is not modelled: the functions that call them take them as the parameters
  \<open>lower\<close> and \<open>upper\<close>. On ASCII text they are the two functions below.
\<close>

definition ascii_lower :: "string \<Rightarrow> string" where
  "ascii_lower s = map (\<lambda>c. case list_index ascii_uppercase c of
                              Some i \<Rightarrow> ascii_lowercase ! i | None \<Rightarrow> c) s"

definition ascii_upper :: "string \<Rightarrow> string" where
  "ascii_upper s = map (\<lambda>c. case list_index ascii_lowercase c of
                              Some i \<Rightarrow> ascii_uppercase ! i | None \<Rightarrow> c) s"

subsection \<open>Internal functions\<close>

text \<open>
  The loop of \<open>_generate_keyword_based_ciphertext_alphabet\<close>, on the two lists it mutates
  and the rest of the key: \<open>plaintext_list.index(char)\<close> either gives the position that is
  popped and appended to \<open>ciphertext_list\<close>, or raises \<open>ValueError\<close>, and the handler raises
  in turn unless the character is in \<open>ciphertext_list\<close>.
\<close>

definition keyword_error :: "char \<Rightarrow> string" where
  "keyword_error char =
     ''Keyword contains character not contained in the alphabet: '' @ [char]"

fun keyword_loop :: "string \<Rightarrow> string \<Rightarrow> string \<Rightarrow> error + string" where
  "keyword_loop plaintext_list ciphertext_list [] = Inr (ciphertext_list @ plaintext_list)"
| "keyword_loop plaintext_list ciphertext_list (char # key) =
     (case list_index plaintext_list char of
        Some position \<Rightarrow>
          (case list_pop plaintext_list position of
             (popped, plaintext_list') \<Rightarrow>
               keyword_loop plaintext_list' (ciphertext_list @ [popped]) key)
      | None \<Rightarrow>
          if char \<notin> set ciphertext_list then Inl (ValueError (keyword_error char))
          else keyword_loop plaintext_list ciphertext_list key)"

definition generate_keyword_based_ciphertext_alphabet :: "string \<Rightarrow> string \<Rightarrow> error + string" where
  "generate_keyword_based_ciphertext_alphabet plaintext_alphabet key =
     keyword_loop plaintext_alphabet [] key"

text \<open>
  \<open>_generate_case_handled_ciphertext_alphabet\<close> compares the alphabet with the \<open>str\<close>
  \<open>string.ascii_letters\<close>: a list is never equal to it, whatever its characters, and
  takes the \<open>else\<close> branch. Both branches return a \<open>str\<close>, the characters joined.
\<close>

definition generate_case_handled_ciphertext_alphabet ::
  "(string \<Rightarrow> string) \<Rightarrow> (string \<Rightarrow> string) \<Rightarrow> alphabet \<Rightarrow> string \<Rightarrow> error + string" where
  "generate_case_handled_ciphertext_alphabet lower upper plaintext_alphabet key =
     (if plaintext_alphabet = PyStr ascii_letters then
        (case generate_keyword_based_ciphertext_alphabet ascii_lowercase (lower key) of
           Inl e \<Rightarrow> Inl e
         | Inr lower_half \<Rightarrow>
             (case generate_keyword_based_ciphertext_alphabet ascii_uppercase (upper key) of
                Inl e \<Rightarrow> Inl e
              | Inr upper_half \<Rightarrow> Inr (lower_half @ upper_half)))
      else generate_keyword_based_ciphertext_alphabet (chars plaintext_alphabet) key)"

text \<open>
  The loop of \<open>_generate_inverse\<close> over the characters of \<open>plaintext_list\<close> that are left.
  Nothing catches the \<open>ValueError\<close> of \<open>ciphertext_list.index(char)\<close> here, nor the
  \<open>IndexError\<close> of \<open>plaintext_list[position]\<close>.
\<close>

fun inverse_loop :: "string \<Rightarrow> string \<Rightarrow> string \<Rightarrow> error + string" where
  "inverse_loop plaintext_list ciphertext_list [] = Inr []"
| "inverse_loop plaintext_list ciphertext_list (char # rest) =
     (case list_index ciphertext_list char of
        None \<Rightarrow> Inl (ValueError (not_in_list char))
      | Some position \<Rightarrow>
          if position < length plaintext_list then
            (case inverse_loop plaintext_list ciphertext_list rest of
               Inl e \<Rightarrow> Inl e
             | Inr inverse_list \<Rightarrow> Inr (plaintext_list ! position # inverse_list))
          else Inl IndexError)"

definition generate_inverse :: "string \<Rightarrow> string \<Rightarrow> error + string" where
  "generate_inverse plaintext_list ciphertext_list =
     inverse_loop plaintext_list ciphertext_list plaintext_list"

text \<open>
  \<open>_apply_mapping\<close>: the handler catches the \<open>ValueError\<close> of \<open>source_list.index(char)\<close> and
  keeps the character; an \<open>IndexError\<close> of \<open>destination_list[position]\<close> would escape.
\<close>

fun apply_mapping :: "string \<Rightarrow> string \<Rightarrow> string \<Rightarrow> error + string" where
  "apply_mapping [] source_list destination_list = Inr []"
| "apply_mapping (char # message_str) source_list destination_list =
     (case list_index source_list char of
        Some position \<Rightarrow>
          if position < length destination_list then
            (case apply_mapping message_str source_list destination_list of
               Inl e \<Rightarrow> Inl e
             | Inr converted \<Rightarrow> Inr (destination_list ! position # converted))
          else Inl IndexError
      | None \<Rightarrow>
          (case apply_mapping message_str source_list destination_list of
             Inl e \<Rightarrow> Inl e
           | Inr converted \<Rightarrow> Inr (char # converted)))"

text \<open>
  \<open>_generate_shifted_alphabet\<close>: Python's \<open>%\<close> rounds towards minus infinity, as \<open>mod\<close> on
  \<^typ>\<open>int\<close> does, and raises \<open>ZeroDivisionError\<close> for a zero divisor. The two slices are
  \<open>drop\<close> and \<open>take\<close>. The function is given on the characters of its argument; the
  result is of the kind of the argument, which the one caller that depends on the kind
  restores with \<^const>\<open>same_kind\<close>.
\<close>

definition generate_shifted_alphabet :: "string \<Rightarrow> int \<Rightarrow> error + string" where
  "generate_shifted_alphabet alphabet_string shift_amount =
     (if length alphabet_string = 0 then Inl ZeroDivisionError
      else let amount = nat (shift_amount mod int (length alphabet_string))
           in Inr (drop amount alphabet_string @ take amount alphabet_string))"

subsection \<open>The Cipher class and its builders\<close>

record Cipher =
  plaintext_list :: string
  ciphertext_list :: string
  inverse_list :: string

definition Cipher_init :: "string \<Rightarrow> string \<Rightarrow> error + Cipher" where
  "Cipher_init ciphertext_alphabet plaintext_alphabet =
     (if length plaintext_alphabet \<noteq> length ciphertext_alphabet then
        Inl (ValueError ''The plaintext and ciphertext have different character counts.'')
      else if set plaintext_alphabet \<noteq> set ciphertext_alphabet then
        Inl (ValueError ''The plaintext and the ciphertext are not the same set of characters.'')
      else
        (case generate_inverse plaintext_alphabet ciphertext_alphabet of
           Inl e \<Rightarrow> Inl e
         | Inr inverted \<Rightarrow>
             Inr \<lparr>plaintext_list = plaintext_alphabet,
                  ciphertext_list = ciphertext_alphabet,
                  inverse_list = inverted\<rparr>))"

definition encrypt :: "Cipher \<Rightarrow> string \<Rightarrow> error + string" where
  "encrypt self message_string =
     apply_mapping message_string (plaintext_list self) (ciphertext_list self)"

definition decrypt :: "Cipher \<Rightarrow> string \<Rightarrow> error + string" where
  "decrypt self message_string =
     apply_mapping message_string (plaintext_list self) (inverse_list self)"

text \<open>
  The constructor turns both alphabets into lists and so is given on their characters.
  The builders take \<open>plaintext_alphabet=None\<close> as \<^term>\<open>None :: alphabet option\<close> and
  replace it by the printable alphabet. The alphabet that
  \<open>_generate_case_handled_ciphertext_alphabet\<close> returns is a \<open>str\<close>.
\<close>

definition KeyedCipher ::
  "(string \<Rightarrow> string) \<Rightarrow> (string \<Rightarrow> string) \<Rightarrow> string \<Rightarrow> alphabet option \<Rightarrow> error + Cipher" where
  "KeyedCipher lower upper key plaintext_alphabet =
     (let plaintext_alphabet =
            (case plaintext_alphabet of None \<Rightarrow> PRINTABLE_ASCII_ALPHABET | Some a \<Rightarrow> a)
      in if length key = 0 then
           Inl (ValueError ''The keyword has to be a non-null string.'')
         else
           (case generate_case_handled_ciphertext_alphabet lower upper plaintext_alphabet key of
              Inl e \<Rightarrow> Inl e
            | Inr ciphertext_alphabet \<Rightarrow>
                Cipher_init ciphertext_alphabet (chars plaintext_alphabet)))"

definition ShiftedCipher :: "int \<Rightarrow> alphabet option \<Rightarrow> error + Cipher" where
  "ShiftedCipher shift_amount plaintext_alphabet =
     (let plaintext_alphabet =
            (case plaintext_alphabet of None \<Rightarrow> PRINTABLE_ASCII_ALPHABET | Some a \<Rightarrow> a)
      in (case generate_shifted_alphabet (chars plaintext_alphabet) shift_amount of
            Inl e \<Rightarrow> Inl e
          | Inr ciphertext_alphabet \<Rightarrow>
              Cipher_init ciphertext_alphabet (chars plaintext_alphabet)))"

definition get_combined_cipher ::
  "(string \<Rightarrow> string) \<Rightarrow> (string \<Rightarrow> string) \<Rightarrow> string \<Rightarrow> int \<Rightarrow> alphabet option \<Rightarrow> bool
     \<Rightarrow> error + Cipher" where
  "get_combined_cipher lower upper key shift_amount plaintext_alphabet shift_first =
     (let plaintext_alphabet =
            (case plaintext_alphabet of None \<Rightarrow> PRINTABLE_ASCII_ALPHABET | Some a \<Rightarrow> a)
      in if shift_first then
           (case generate_shifted_alphabet (chars plaintext_alphabet) shift_amount of
              Inl e \<Rightarrow> Inl e
            | Inr shifted \<Rightarrow>
                KeyedCipher lower upper key (Some (same_kind plaintext_alphabet shifted)))
         else
           (case generate_case_handled_ciphertext_alphabet lower upper plaintext_alphabet key of
              Inl e \<Rightarrow> Inl e
            | Inr plaintext_alphabet \<Rightarrow>
                ShiftedCipher shift_amount (Some (PyStr plaintext_alphabet))))"

subsection \<open>The specification's reading of the keyword reordering\<close>

text \<open>
  This definition follows the specification's words for \<open>reorder_by_key\<close>, not the code: a
  key character still present in the working copy has its first occurrence removed and
  appended to the result; one that was consumed earlier is skipped; one that is absent
  from the alphabet from the start is an \<open>InvalidArgument\<close> naming it. It is compared
  with the code's loop below.
\<close>

fun reorder_by_key_loop :: "string \<Rightarrow> string \<Rightarrow> string \<Rightarrow> string \<Rightarrow> error + string" where
  "reorder_by_key_loop alphabet working result [] = Inr (result @ working)"
| "reorder_by_key_loop alphabet working result (c # key) =
     (if c \<in> set working then
        reorder_by_key_loop alphabet (remove1 c working) (result @ [c]) key
      else if c \<in> set alphabet then reorder_by_key_loop alphabet working result key
      else Inl (ValueError (keyword_error c)))"

definition reorder_by_key :: "string \<Rightarrow> string \<Rightarrow> error + string" where
  "reorder_by_key alphabet key = reorder_by_key_loop alphabet alphabet [] key"

text \<open>The first occurrence of every element of a list, in the order of the list.\<close>

fun first_occurrences :: "'a list \<Rightarrow> 'a list" where
  "first_occurrences [] = []"
| "first_occurrences (x # xs) = x # filter (\<lambda>y. y \<noteq> x) (first_occurrences xs)"

subsection \<open>The character map of a substitution\<close>

text \<open>
  What \<open>_apply_mapping\<close> does to one character when the subscript is in range: the
  character at the same position of the destination, or the character itself when the
  source does not contain it. Used to state results only.
\<close>

definition substitute :: "string \<Rightarrow> string \<Rightarrow> char \<Rightarrow> char" where
  "substitute source_list destination_list char =
     (case list_index source_list char of
        Some position \<Rightarrow> destination_list ! position
      | None \<Rightarrow> char)"

section \<open>Properties of the primitives\<close>

lemma list_index_None: "list_index xs x = None \<longleftrightarrow> x \<notin> set xs"
  by (induction xs) auto

lemma list_index_Some:
  "list_index xs x = Some i \<Longrightarrow> i < length xs \<and> xs ! i = x \<and> x \<notin> set (take i xs)"
proof (induction xs arbitrary: i)
  case Nil
  then show ?case by simp
next
  case (Cons y ys)
  show ?case
  proof (cases "y = x")
    case True
    with Cons.prems show ?thesis by simp
  next
    case False
    with Cons.prems obtain j where j: "list_index ys x = Some j" "i = Suc j"
      by auto
    from Cons.IH [OF j(1)] False j(2) show ?thesis by simp
  qed
qed

lemma list_index_mem: "x \<in> set xs \<Longrightarrow> \<exists>i. list_index xs x = Some i"
  using list_index_None [of xs x] by (cases "list_index xs x") auto

lemma list_pop_remove1:
  "list_index xs x = Some i \<Longrightarrow> list_pop xs i = (x, remove1 x xs)"
proof (induction xs arbitrary: i)
  case Nil
  then show ?case by simp
next
  case (Cons y ys)
  show ?case
  proof (cases "y = x")
    case True
    with Cons.prems show ?thesis by (simp add: list_pop_def)
  next
    case False
    with Cons.prems obtain j where j: "list_index ys x = Some j" "i = Suc j"
      by auto
    from Cons.IH [OF j(1)] False j(2) show ?thesis by (simp add: list_pop_def)
  qed
qed

lemma list_index_nth:
  "distinct xs \<Longrightarrow> i < length xs \<Longrightarrow> list_index xs (xs ! i) = Some i"
proof (induction xs arbitrary: i)
  case Nil
  then show ?case by simp
next
  case (Cons y ys)
  show ?case
  proof (cases i)
    case 0
    then show ?thesis by simp
  next
    case (Suc j)
    with Cons.prems have "ys ! j \<in> set ys" "y \<notin> set ys" by auto
    then have "y \<noteq> ys ! j" by auto
    with Cons Suc show ?thesis by simp
  qed
qed

section \<open>The keyword loop\<close>

lemma keyword_loop_present:
  "char \<in> set pl \<Longrightarrow>
   keyword_loop pl cl (char # key) = keyword_loop (remove1 char pl) (cl @ [char]) key"
proof -
  assume "char \<in> set pl"
  then obtain i where i: "list_index pl char = Some i"
    using list_index_mem by fastforce
  then show ?thesis by (simp add: list_pop_remove1)
qed

lemma keyword_loop_absent:
  "char \<notin> set pl \<Longrightarrow>
   keyword_loop pl cl (char # key) =
     (if char \<notin> set cl then Inl (ValueError (keyword_error char)) else keyword_loop pl cl key)"
  using list_index_None [of pl char] by simp

declare keyword_loop.simps(2) [simp del]

lemma set_remove1_insert: "x \<in> set xs \<Longrightarrow> insert x (set (remove1 x xs)) = set xs"
  by (induction xs) auto

lemma keyword_loop_refines:
  "set pl \<union> set cl = set alphabet \<Longrightarrow>
   keyword_loop pl cl key = reorder_by_key_loop alphabet pl cl key"
proof (induction key arbitrary: pl cl)
  case Nil
  show ?case by simp
next
  case (Cons c key)
  show ?case
  proof (cases "c \<in> set pl")
    case True
    have "set (remove1 c pl) \<union> set (cl @ [c]) = set alphabet"
      using Cons.prems set_remove1_insert [OF True] by auto
    from Cons.IH [OF this] True show ?thesis
      by (simp only: keyword_loop_present reorder_by_key_loop.simps if_True)
  next
    case False
    show ?thesis
    proof (cases "c \<in> set cl")
      case True
      with False Cons.prems have "c \<in> set alphabet" by auto
      with False True Cons.IH [OF Cons.prems] show ?thesis
        by (simp add: keyword_loop_absent)
    next
      case notin: False
      with False Cons.prems have "c \<notin> set alphabet" by auto
      with False notin show ?thesis
        by (simp add: keyword_loop_absent)
    qed
  qed
qed

lemma keyword_loop_mset:
  "keyword_loop pl cl key = Inr r \<Longrightarrow> mset r = mset cl + mset pl"
proof (induction key arbitrary: pl cl)
  case Nil
  then show ?case by auto
next
  case (Cons c key)
  show ?case
  proof (cases "c \<in> set pl")
    case True
    with Cons.prems have "keyword_loop (remove1 c pl) (cl @ [c]) key = Inr r"
      by (simp only: keyword_loop_present)
    from Cons.IH [OF this] True show ?thesis by simp
  next
    case False
    with Cons.prems have "keyword_loop pl cl key = Inr r"
      by (simp add: keyword_loop_absent split: if_splits)
    from Cons.IH [OF this] show ?thesis .
  qed
qed

lemma keyword_loop_succeeds:
  "set key \<subseteq> set pl \<union> set cl \<Longrightarrow> \<exists>r. keyword_loop pl cl key = Inr r"
proof (induction key arbitrary: pl cl)
  case Nil
  show ?case by simp
next
  case (Cons c key)
  show ?case
  proof (cases "c \<in> set pl")
    case True
    have "set key \<subseteq> set (remove1 c pl) \<union> set (cl @ [c])"
      using Cons.prems set_remove1_insert [OF True] by auto
    from Cons.IH [OF this] True show ?thesis
      by (simp only: keyword_loop_present)
  next
    case False
    with Cons.prems have "c \<in> set cl" "set key \<subseteq> set pl \<union> set cl" by auto
    with False Cons.IH [of pl cl] show ?thesis
      by (simp add: keyword_loop_absent)
  qed
qed

lemma keyword_loop_fails:
  "set pre \<subseteq> set pl \<union> set cl \<Longrightarrow> c \<notin> set pl \<union> set cl \<Longrightarrow>
   keyword_loop pl cl (pre @ c # suf) = Inl (ValueError (keyword_error c))"
proof (induction pre arbitrary: pl cl)
  case Nil
  then show ?case by (simp add: keyword_loop_absent)
next
  case (Cons k pre)
  show ?case
  proof (cases "k \<in> set pl")
    case True
    have "set pre \<subseteq> set (remove1 k pl) \<union> set (cl @ [k])"
         "c \<notin> set (remove1 k pl) \<union> set (cl @ [k])"
      using Cons.prems set_remove1_insert [OF True] by auto
    from Cons.IH [OF this] True show ?thesis
      by (simp only: keyword_loop_present append_Cons)
  next
    case False
    with Cons.prems have "k \<in> set cl" "set pre \<subseteq> set pl \<union> set cl" by auto
    with False Cons.IH [of pl cl] Cons.prems(2) show ?thesis
      by (simp add: keyword_loop_absent)
  qed
qed

lemma set_first_occurrences: "set (first_occurrences xs) = set xs"
  by (induction xs) auto

lemma filter_first_occurrences:
  "filter P (first_occurrences xs) = first_occurrences (filter P xs)"
proof (induction xs)
  case Nil
  show ?case by simp
next
  case (Cons x xs)
  have "filter P (filter (\<lambda>y. y \<noteq> x) (first_occurrences xs))
        = filter (\<lambda>y. y \<noteq> x) (filter P (first_occurrences xs))"
    by (simp add: conj_commute)
  then have swap: "filter P (filter (\<lambda>y. y \<noteq> x) (first_occurrences xs))
        = filter (\<lambda>y. y \<noteq> x) (first_occurrences (filter P xs))"
    by (simp only: Cons.IH)
  show ?case
  proof (cases "P x")
    case True
    with swap show ?thesis by simp
  next
    case False
    then have "x \<notin> set (first_occurrences (filter P xs))"
      by (simp add: set_first_occurrences)
    then have "filter (\<lambda>y. y \<noteq> x) (first_occurrences (filter P xs))
                 = first_occurrences (filter P xs)"
      by (auto simp: filter_id_conv)
    with swap False show ?thesis by simp
  qed
qed

lemma keyword_loop_closed_form:
  "distinct pl \<Longrightarrow> set pl \<inter> set cl = {} \<Longrightarrow> set key \<subseteq> set pl \<union> set cl \<Longrightarrow>
   keyword_loop pl cl key =
     Inr (cl @ first_occurrences (filter (\<lambda>k. k \<notin> set cl) key) @ filter (\<lambda>x. x \<notin> set key) pl)"
proof (induction key arbitrary: pl cl)
  case Nil
  show ?case by simp
next
  case (Cons c key)
  show ?case
  proof (cases "c \<in> set pl")
    case True
    let ?pl = "remove1 c pl" and ?cl = "cl @ [c]"
    have pl: "?pl = filter (\<lambda>x. x \<noteq> c) pl"
      using Cons.prems(1) by (simp add: distinct_remove1_removeAll removeAll_filter_not_eq eq_commute)
    have "distinct ?pl" "set ?pl \<inter> set ?cl = {}" "set key \<subseteq> set ?pl \<union> set ?cl"
      using Cons.prems set_remove1_insert [OF True] by auto
    from Cons.IH [OF this]
    have "keyword_loop ?pl ?cl key =
       Inr (?cl @ first_occurrences (filter (\<lambda>k. k \<notin> set ?cl) key) @ filter (\<lambda>x. x \<notin> set key) ?pl)" .
    moreover have "c \<notin> set cl" using True Cons.prems(2) by auto
    moreover have "filter (\<lambda>k. k \<notin> set ?cl) key = filter (\<lambda>y. y \<noteq> c) (filter (\<lambda>k. k \<notin> set cl) key)"
      by (auto intro: filter_cong)
    moreover have "filter (\<lambda>x. x \<notin> set key) ?pl = filter (\<lambda>x. x \<notin> set (c # key)) pl"
      unfolding pl by (auto intro: filter_cong)
    ultimately show ?thesis using True
      by (simp only: keyword_loop_present filter_first_occurrences [symmetric])
         (simp add: filter_first_occurrences)
  next
    case False
    with Cons.prems have c: "c \<in> set cl" "set key \<subseteq> set pl \<union> set cl" by auto
    have "filter (\<lambda>x. x \<notin> set key) pl = filter (\<lambda>x. x \<notin> set (c # key)) pl"
      using False by (auto intro: filter_cong)
    with False c Cons.IH [OF Cons.prems(1,2) c(2)] show ?thesis
      by (simp add: keyword_loop_absent)
  qed
qed

section \<open>Construction, mapping and rotation\<close>

lemma inverse_loop_total:
  "set xs \<subseteq> set cl \<Longrightarrow> length cl \<le> length pl \<Longrightarrow>
   inverse_loop pl cl xs = Inr (map (\<lambda>x. pl ! the (list_index cl x)) xs)"
proof (induction xs)
  case Nil
  show ?case by simp
next
  case (Cons x xs)
  then have "x \<in> set cl" by simp
  then obtain i where i: "list_index cl x = Some i"
    using list_index_mem by fastforce
  with list_index_Some [OF i] Cons show ?case by simp
qed

lemma apply_mapping_total:
  "length source_list \<le> length destination_list \<Longrightarrow>
   apply_mapping message_str source_list destination_list =
     Inr (map (substitute source_list destination_list) message_str)"
proof (induction message_str)
  case Nil
  show ?case by simp
next
  case (Cons x xs)
  show ?case
  proof (cases "list_index source_list x")
    case None
    with Cons show ?thesis by (simp add: substitute_def)
  next
    case (Some i)
    with list_index_Some [OF Some] Cons show ?thesis by (simp add: substitute_def)
  qed
qed

lemma Cipher_init_success:
  "length p = length c \<Longrightarrow> set p = set c \<Longrightarrow>
   Cipher_init c p =
     Inr \<lparr>plaintext_list = p, ciphertext_list = c,
          inverse_list = map (\<lambda>x. p ! the (list_index c x)) p\<rparr>"
  by (simp add: Cipher_init_def generate_inverse_def inverse_loop_total)

lemma Cipher_init_Inr:
  assumes "Cipher_init c p = Inr self"
  shows "length p = length c" and "set p = set c"
    and "self = \<lparr>plaintext_list = p, ciphertext_list = c,
                  inverse_list = map (\<lambda>x. p ! the (list_index c x)) p\<rparr>"
proof -
  show len: "length p = length c" using assms
    by (auto simp: Cipher_init_def split: if_splits)
  show sets: "set p = set c" using assms
    by (auto simp: Cipher_init_def split: if_splits)
  from Cipher_init_success [OF len sets] assms
  show "self = \<lparr>plaintext_list = p, ciphertext_list = c,
                  inverse_list = map (\<lambda>x. p ! the (list_index c x)) p\<rparr>"
    by simp
qed

lemma distinct_same_set:
  assumes "distinct p" "length p = length c" "set p = set c"
  shows "distinct c"
proof -
  have "card (set c) = length c"
    using assms distinct_card [of p] by simp
  then show ?thesis by (rule card_distinct)
qed

lemma substitute_outside: "x \<notin> set p \<Longrightarrow> substitute p d x = x"
  using list_index_None [of p x] by (simp add: substitute_def)

lemma decrypt_encrypt_char:
  assumes d: "distinct p" and len: "length p = length c" and sets: "set p = set c"
  shows "substitute p (map (\<lambda>x. p ! the (list_index c x)) p) (substitute p c x) = x"
proof (cases "x \<in> set p")
  case False
  then show ?thesis by (simp add: substitute_outside)
next
  case True
  then obtain i where i: "list_index p x = Some i"
    using list_index_mem by fastforce
  note ii = list_index_Some [OF i]
  have dc: "distinct c" using distinct_same_set [OF d len sets] .
  have enc: "substitute p c x = c ! i" using i by (simp add: substitute_def)
  have "c ! i \<in> set p" using ii len sets by (metis nth_mem)
  then obtain j where j: "list_index p (c ! i) = Some j"
    using list_index_mem by fastforce
  note jj = list_index_Some [OF j]
  have ci: "list_index c (p ! j) = Some i"
    using jj ii len list_index_nth [OF dc, of i] by simp
  have "substitute p (map (\<lambda>x. p ! the (list_index c x)) p) (c ! i)
          = map (\<lambda>x. p ! the (list_index c x)) p ! j"
    using j by (simp add: substitute_def)
  also have "\<dots> = p ! the (list_index c (p ! j))"
    using jj by simp
  also have "\<dots> = x"
    using ci ii by simp
  finally show ?thesis by (simp only: enc)
qed

lemma encrypt_decrypt_char:
  assumes d: "distinct p" and len: "length p = length c" and sets: "set p = set c"
  shows "substitute p c (substitute p (map (\<lambda>x. p ! the (list_index c x)) p) x) = x"
proof (cases "x \<in> set p")
  case False
  then show ?thesis by (simp add: substitute_outside)
next
  case True
  then obtain j where j: "list_index p x = Some j"
    using list_index_mem by fastforce
  note jj = list_index_Some [OF j]
  from True sets obtain k where k: "list_index c x = Some k"
    using list_index_mem by fastforce
  note kk = list_index_Some [OF k]
  have dec: "substitute p (map (\<lambda>x. p ! the (list_index c x)) p) x = p ! k"
    using j jj k by (simp add: substitute_def)
  have "list_index p (p ! k) = Some k"
    using list_index_nth [OF d, of k] kk len by simp
  then have "substitute p c (p ! k) = c ! k"
    by (simp add: substitute_def)
  with kk show ?thesis by (simp only: dec)
qed

lemma rotate_slices:
  "n < length xs \<Longrightarrow> drop n xs @ take n xs = rotate n xs"
  by (simp add: rotate_drop_take)

lemma generate_shifted_alphabet_rotate:
  "alphabet_string \<noteq> [] \<Longrightarrow>
   generate_shifted_alphabet alphabet_string shift_amount =
     Inr (rotate (nat (shift_amount mod int (length alphabet_string))) alphabet_string)"
proof -
  assume ne: "alphabet_string \<noteq> []"
  then have "nat (shift_amount mod int (length alphabet_string)) < length alphabet_string"
    by (simp add: nat_less_iff)
  with ne show ?thesis
    by (simp add: generate_shifted_alphabet_def Let_def rotate_slices)
qed

section \<open>Ciphers and builders\<close>

lemma apply_mapping_Cipher:
  assumes "Cipher_init c p = Inr self"
  shows "encrypt self s = Inr (map (substitute p c) s)"
    and "decrypt self s = Inr (map (substitute p (map (\<lambda>x. p ! the (list_index c x)) p)) s)"
  using Cipher_init_Inr [OF assms]
  by (simp_all add: encrypt_def decrypt_def apply_mapping_total)

text \<open>
  With a plaintext alphabet free of repeated characters, decrypting what was encrypted
  gives the message back.
\<close>

lemma decrypt_encrypt_distinct:
  assumes "Cipher_init c p = Inr self" and "distinct p"
  shows "\<exists>t. encrypt self s = Inr t \<and> decrypt self t = Inr s"
proof -
  note init = Cipher_init_Inr(1,2) [OF assms(1)]
  have "map (substitute p (map (\<lambda>x. p ! the (list_index c x)) p)) (map (substitute p c) s) = s"
    by (simp add: decrypt_encrypt_char [OF assms(2) init] map_idI)
  then show ?thesis
    by (simp add: apply_mapping_Cipher [OF assms(1)])
qed

lemma generate_keyword_based_mset:
  "generate_keyword_based_ciphertext_alphabet alphabet key = Inr r \<Longrightarrow> mset r = mset alphabet"
  using keyword_loop_mset [of alphabet "[]" key r]
  by (simp add: generate_keyword_based_ciphertext_alphabet_def)



lemma generate_case_handled_mset:
  assumes "generate_case_handled_ciphertext_alphabet lower upper alphabet key = Inr r"
  shows "mset r = mset (chars alphabet)"
proof (cases "alphabet = PyStr ascii_letters")
  case False
  with assms show ?thesis
    by (simp add: generate_case_handled_ciphertext_alphabet_def generate_keyword_based_mset)
next
  case True
  with assms obtain l u where
    l: "generate_keyword_based_ciphertext_alphabet ascii_lowercase (lower key) = Inr l" and
    u: "generate_keyword_based_ciphertext_alphabet ascii_uppercase (upper key) = Inr u" and
    r: "r = l @ u"
    by (auto simp: generate_case_handled_ciphertext_alphabet_def split: sum.splits)
  from generate_keyword_based_mset [OF l] generate_keyword_based_mset [OF u] r True
  show ?thesis by (simp add: ascii_letters_def)
qed

lemma ShiftedCipher_success:
  assumes "chars alphabet \<noteq> []"
  shows "\<exists>self. ShiftedCipher k (Some alphabet) = Inr self
            \<and> plaintext_list self = chars alphabet
            \<and> ciphertext_list self
                = rotate (nat (k mod int (length (chars alphabet)))) (chars alphabet)"
proof -
  let ?c = "rotate (nat (k mod int (length (chars alphabet)))) (chars alphabet)"
  have "length (chars alphabet) = length ?c" "set (chars alphabet) = set ?c" by simp_all
  from Cipher_init_success [OF this] generate_shifted_alphabet_rotate [OF assms, of k]
  show ?thesis by (simp add: ShiftedCipher_def)
qed


section \<open>The claims of the specification\<close>

subsection \<open>C1: round trip for every accepted alphabet pair\<close>

text \<open>
  C1 says that \<open>decrypt(encrypt(s)) == s\<close> for every alphabet pair the constructor accepts,
  that is, every pair of the same length with the same set of characters. The constructor
  also accepts pairs with repeated characters, which its docstring forbids, and on such a
  pair the round trip is lost: with plaintext alphabet \<open>aab\<close> and ciphertext alphabet
  \<open>abb\<close> the constructor succeeds, \<open>b\<close> encrypts to \<open>b\<close> and \<open>b\<close> decrypts to \<open>a\<close>.
\<close>

theorem C1_roundtrip_broken_by_duplicates:
  "length ''aab'' = length ''abb'' \<and> set ''aab'' = set ''abb''
   \<and> Cipher_init ''abb'' ''aab''
     = Inr \<lparr>plaintext_list = ''aab'', ciphertext_list = ''abb'', inverse_list = ''aaa''\<rparr>
   \<and> encrypt \<lparr>plaintext_list = ''aab'', ciphertext_list = ''abb'', inverse_list = ''aaa''\<rparr> ''b''
       = Inr ''b''
   \<and> decrypt \<lparr>plaintext_list = ''aab'', ciphertext_list = ''abb'', inverse_list = ''aaa''\<rparr> ''b''
       = Inr ''a''"
proof -
  have accepted: "length ''aab'' = length ''abb''" "set ''aab'' = set ''abb''"
    by auto
  from Cipher_init_success [OF accepted] accepted show ?thesis
    by (simp add: encrypt_def decrypt_def)
qed

subsection \<open>C2: the combined builder, key first\<close>

text \<open>
  C2 as stated pairs the rotated, key-reordered alphabet with the original base alphabet
  as plaintext. The code passes the key-reordered alphabet to \<open>ShiftedCipher\<close> as its
  plaintext alphabet: with key \<open>b\<close>, shift 1 and base alphabet \<open>abc\<close> the plaintext
  alphabet of the cipher is \<open>bac\<close>, not \<open>abc\<close>.
\<close>

theorem C2_counterexample:
  "get_combined_cipher ascii_lower ascii_upper ''b'' 1 (Some (PyStr ''abc'')) False
     = Inr \<lparr>plaintext_list = ''bac'', ciphertext_list = ''acb'', inverse_list = ''cba''\<rparr>
   \<and> plaintext_list \<lparr>plaintext_list = ''bac'', ciphertext_list = ''acb'', inverse_list = ''cba''\<rparr>
       \<noteq> ''abc''"
proof -
  have neq: "''abc'' \<noteq> ascii_letters"
    by (simp add: ascii_letters_def ascii_lowercase_def ascii_uppercase_def)
  have keyed: "generate_case_handled_ciphertext_alphabet ascii_lower ascii_upper
                 (PyStr ''abc'') ''b'' = Inr ''bac''"
    using neq
    by (simp add: generate_case_handled_ciphertext_alphabet_def
        generate_keyword_based_ciphertext_alphabet_def keyword_loop_present)
  have shifted: "generate_shifted_alphabet ''bac'' 1 = Inr ''acb''"
    by (simp add: generate_shifted_alphabet_def)
  have "length ''bac'' = length ''acb''" "set ''bac'' = set ''acb''" by auto
  from Cipher_init_success [OF this]
  have "Cipher_init ''acb'' ''bac''
     = Inr \<lparr>plaintext_list = ''bac'', ciphertext_list = ''acb'', inverse_list = ''cba''\<rparr>"
    by simp
  with keyed shifted show ?thesis
    by (simp add: get_combined_cipher_def ShiftedCipher_def)
qed

text \<open>
  C2, amended: when the key reordering (with the case-split rule) of a non-empty base
  alphabet succeeds, the combined builder with \<open>shift_first=False\<close> constructs a cipher
  whose ciphertext alphabet is the key-reordered alphabet rotated left by the shift amount
  modulo its length, and whose plaintext alphabet is the key-reordered alphabet itself.
\<close>

theorem C2_combined_key_first:
  assumes "generate_case_handled_ciphertext_alphabet lower upper alphabet key = Inr keyed"
    and "chars alphabet \<noteq> []"
  shows "\<exists>self. get_combined_cipher lower upper key k (Some alphabet) False = Inr self
            \<and> ciphertext_list self = rotate (nat (k mod int (length keyed))) keyed
            \<and> plaintext_list self = keyed"
proof -
  from generate_case_handled_mset [OF assms(1)] have "length (chars alphabet) = length keyed"
    by (metis size_mset)
  with assms(2) have "chars (PyStr keyed) \<noteq> []" by auto
  from ShiftedCipher_success [OF this, of k] assms(1) show ?thesis
    by (auto simp: get_combined_cipher_def)
qed

theorem C2_combined_key_first_witness:
  "generate_case_handled_ciphertext_alphabet ascii_lower ascii_upper
       (PyStr ''0123456789'') ''5158414'' = Inr ''5184023679''
   \<and> chars (PyStr ''0123456789'') \<noteq> []
   \<and> (\<exists>self. get_combined_cipher ascii_lower ascii_upper ''5158414'' (-3)
                  (Some (PyStr ''0123456789'')) False
                = Inr self
           \<and> ciphertext_list self = ''6795184023''
           \<and> plaintext_list self = ''5184023679'')"
proof -
  have neq: "''0123456789'' \<noteq> ascii_letters"
    by (simp add: ascii_letters_def ascii_lowercase_def ascii_uppercase_def)
  have h1: "generate_case_handled_ciphertext_alphabet ascii_lower ascii_upper
              (PyStr ''0123456789'') ''5158414'' = Inr ''5184023679''"
    using neq
    by (simp add: generate_case_handled_ciphertext_alphabet_def
        generate_keyword_based_ciphertext_alphabet_def keyword_loop_present keyword_loop_absent)
  have h2: "chars (PyStr ''0123456789'') \<noteq> []" by simp
  have r: "rotate (nat (- 3 mod int (length ''5184023679''))) ''5184023679'' = ''6795184023''"
    by (simp add: rotate_drop_take)
  from C2_combined_key_first [OF h1 h2, of "- 3"] h1 h2 show ?thesis
    unfolding r by (intro conjI)
qed

subsection \<open>C3: repeated characters at construction\<close>

text \<open>
  C3 says that constructing a cipher fails with \<open>InvalidArgument\<close> whenever one of the
  two alphabets has a repeated character. The constructor compares the lengths and the
  character sets only: for plaintext alphabet \<open>aab\<close> and ciphertext alphabet \<open>abb\<close>, both
  with a repeated character, it raises nothing and returns a cipher.
\<close>

theorem C3_duplicates_accepted:
  "\<not> distinct ''aab'' \<and> \<not> distinct ''abb''
   \<and> \<not> is_ValueError (Cipher_init ''abb'' ''aab'')
   \<and> map_sum id ciphertext_list (Cipher_init ''abb'' ''aab'') = Inr ''abb''"
  by (simp add: Cipher_init_def generate_inverse_def is_ValueError_def)

subsection \<open>C4: shifting an alphabet\<close>

text \<open>
  C4 as stated has the shift of an empty alphabet fail with \<open>InvalidArgument\<close>. The code
  has no check of its own: the modulo by the length zero raises \<open>ZeroDivisionError\<close>,
  which is not a \<open>ValueError\<close>.
\<close>

theorem C4_counterexample:
  "generate_shifted_alphabet [] 3 = Inl ZeroDivisionError
   \<and> \<not> is_ValueError (generate_shifted_alphabet [] 3)"
  by (simp add: generate_shifted_alphabet_def is_ValueError_def)

text \<open>
  C4, amended: the shift of an empty alphabet fails with \<open>ZeroDivisionError\<close>; the shift
  of a non-empty alphabet by \<open>k\<close> rotates it left by \<open>((k % length) + length) % length\<close>
  positions, a number in \<open>[0, length)\<close> also for negative \<open>k\<close>.
\<close>

theorem C4_shift:
  "generate_shifted_alphabet [] k = Inl ZeroDivisionError
   \<and> (alphabet \<noteq> [] \<longrightarrow>
        0 \<le> (k mod int (length alphabet) + int (length alphabet)) mod int (length alphabet)
        \<and> (k mod int (length alphabet) + int (length alphabet)) mod int (length alphabet)
            < int (length alphabet)
        \<and> generate_shifted_alphabet alphabet k
            = Inr (rotate (nat ((k mod int (length alphabet) + int (length alphabet))
                                 mod int (length alphabet))) alphabet))"
proof (intro conjI impI)
  show "generate_shifted_alphabet [] k = Inl ZeroDivisionError"
    by (simp add: generate_shifted_alphabet_def)
next
  assume "alphabet \<noteq> []"
  then show "0 \<le> (k mod int (length alphabet) + int (length alphabet)) mod int (length alphabet)"
    by simp
next
  assume "alphabet \<noteq> []"
  then show "(k mod int (length alphabet) + int (length alphabet)) mod int (length alphabet)
            < int (length alphabet)"
    by simp
next
  assume ne: "alphabet \<noteq> []"
  have "(k mod int (length alphabet) + int (length alphabet)) mod int (length alphabet)
          = k mod int (length alphabet)"
    by simp
  with generate_shifted_alphabet_rotate [OF ne, of k]
  show "generate_shifted_alphabet alphabet k
            = Inr (rotate (nat ((k mod int (length alphabet) + int (length alphabet))
                                 mod int (length alphabet))) alphabet)"
    by simp
qed

theorem C4_shift_witness:
  "''abcde'' \<noteq> []
   \<and> (- 7 mod int (length ''abcde'') + int (length ''abcde'')) mod int (length ''abcde'') = 3
   \<and> generate_shifted_alphabet ''abcde'' (- 7) = Inr ''deabc''"
proof -
  have h: "''abcde'' \<noteq> []" by simp
  have a: "(- 7 mod int (length ''abcde'') + int (length ''abcde'')) mod int (length ''abcde'') = 3"
    by simp
  have r: "rotate (nat 3) ''abcde'' = ''deabc''"
    by (simp add: rotate_drop_take)
  note s = C4_shift [of "- 7" "''abcde''", THEN conjunct2, THEN mp, OF h,
      THEN conjunct2, THEN conjunct2]
  from h a s [unfolded a r] show ?thesis by (intro conjI)
qed

subsection \<open>C5: the construction contract\<close>

text \<open>
  C5: constructing a cipher fails with \<open>InvalidArgument\<close> when the lengths of the two
  alphabets differ, fails with \<open>InvalidArgument\<close> when their character sets differ, and
  succeeds whenever the ciphertext alphabet is a permutation of the plaintext alphabet.
\<close>

theorem C5_construction_contract:
  "(length p \<noteq> length c \<longrightarrow>
      Cipher_init c p
        = Inl (ValueError ''The plaintext and ciphertext have different character counts.''))
   \<and> (set p \<noteq> set c \<longrightarrow> is_ValueError (Cipher_init c p))
   \<and> (mset c = mset p \<longrightarrow>
        (\<exists>self. Cipher_init c p = Inr self
                \<and> plaintext_list self = p \<and> ciphertext_list self = c))"
proof (intro conjI impI)
  assume "length p \<noteq> length c"
  then show "Cipher_init c p
        = Inl (ValueError ''The plaintext and ciphertext have different character counts.'')"
    by (simp add: Cipher_init_def)
next
  assume "set p \<noteq> set c"
  then show "is_ValueError (Cipher_init c p)"
    by (simp add: Cipher_init_def is_ValueError_def)
next
  assume m: "mset c = mset p"
  then have "length p = length c" "set p = set c"
    by (metis size_mset, metis set_mset_mset)
  from Cipher_init_success [OF this]
  show "\<exists>self. Cipher_init c p = Inr self \<and> plaintext_list self = p \<and> ciphertext_list self = c"
    by simp
qed

theorem C5_construction_contract_witness:
  "length ''ab'' \<noteq> length ''abc''
   \<and> Cipher_init ''abc'' ''ab''
       = Inl (ValueError ''The plaintext and ciphertext have different character counts.'')
   \<and> set ''ab'' \<noteq> set ''ac'' \<and> is_ValueError (Cipher_init ''ac'' ''ab'')
   \<and> mset ''ba'' = mset ''ab''
   \<and> (\<exists>self. Cipher_init ''ba'' ''ab'' = Inr self
              \<and> plaintext_list self = ''ab'' \<and> ciphertext_list self = ''ba'')"
proof -
  have h1: "length ''ab'' \<noteq> length ''abc''" by simp
  have h2: "set ''ab'' \<noteq> set ''ac''"
  proof
    assume "set ''ab'' = set ''ac''"
    then have "CHR ''b'' \<in> set ''ac''" by (metis list.set_intros(1,2))
    then show False by simp
  qed
  have h3: "mset ''ba'' = mset ''ab''" by simp
  note a = C5_construction_contract [of "''ab''" "''abc''", THEN conjunct1, rule_format, OF h1]
  note b = C5_construction_contract [of "''ab''" "''ac''", THEN conjunct2, THEN conjunct1, rule_format, OF h2]
  note c = C5_construction_contract [of "''ab''" "''ba''", THEN conjunct2, THEN conjunct2, rule_format, OF h3]
  from h1 a h2 b h3 c show ?thesis by (intro conjI)
qed

subsection \<open>C6: reordering by key\<close>

text \<open>
  C6: the keyword reordering of the code is the one the specification describes
  (\<^const>\<open>reorder_by_key\<close>): the key characters are processed in order, the first
  unconsumed occurrence of each is moved to the result, a key character consumed earlier
  is skipped, and the rest of the alphabet follows in its original order. On an alphabet
  without repeated characters whose key characters all belong to it, the result is the
  first occurrences of the key characters followed by the alphabet characters that are not
  in the key. The first key character that is absent from the alphabet makes the call fail
  with an \<open>InvalidArgument\<close> whose message ends with that character. The alphabet
  \<open>0123456789\<close> with key \<open>5158414\<close> yields \<open>5184023679\<close>.
\<close>

theorem C6_reorder_by_key:
  "generate_keyword_based_ciphertext_alphabet alphabet key = reorder_by_key alphabet key
   \<and> (distinct alphabet \<longrightarrow> (\<forall>c\<in>set key. c \<in> set alphabet) \<longrightarrow>
        generate_keyword_based_ciphertext_alphabet alphabet key
          = Inr (first_occurrences key @ filter (\<lambda>x. x \<notin> set key) alphabet))
   \<and> ((\<forall>c\<in>set pre. c \<in> set alphabet) \<longrightarrow> bad \<notin> set alphabet \<longrightarrow>
        generate_keyword_based_ciphertext_alphabet alphabet (pre @ bad # suf)
          = Inl (ValueError
                  (''Keyword contains character not contained in the alphabet: '' @ [bad])))
   \<and> generate_keyword_based_ciphertext_alphabet ''0123456789'' ''5158414'' = Inr ''5184023679''"
proof (intro conjI impI)
  show "generate_keyword_based_ciphertext_alphabet alphabet key = reorder_by_key alphabet key"
    using keyword_loop_refines [of alphabet "[]" alphabet key]
    by (simp add: generate_keyword_based_ciphertext_alphabet_def reorder_by_key_def)
next
  assume "distinct alphabet" and "\<forall>c\<in>set key. c \<in> set alphabet"
  then have "distinct alphabet" "set alphabet \<inter> set [] = {}" "set key \<subseteq> set alphabet \<union> set []"
    by auto
  from keyword_loop_closed_form [OF this]
  show "generate_keyword_based_ciphertext_alphabet alphabet key
          = Inr (first_occurrences key @ filter (\<lambda>x. x \<notin> set key) alphabet)"
    by (simp add: generate_keyword_based_ciphertext_alphabet_def)
next
  assume "\<forall>c\<in>set pre. c \<in> set alphabet" and "bad \<notin> set alphabet"
  then have "set pre \<subseteq> set alphabet \<union> set []" "bad \<notin> set alphabet \<union> set []"
    by auto
  from keyword_loop_fails [OF this]
  show "generate_keyword_based_ciphertext_alphabet alphabet (pre @ bad # suf)
          = Inl (ValueError
                  (''Keyword contains character not contained in the alphabet: '' @ [bad]))"
    by (simp add: generate_keyword_based_ciphertext_alphabet_def keyword_error_def)
next
  have "distinct ''0123456789''" "set ''0123456789'' \<inter> set [] = {}"
       "set ''5158414'' \<subseteq> set ''0123456789'' \<union> set []"
    by simp_all
  from keyword_loop_closed_form [OF this]
  show "generate_keyword_based_ciphertext_alphabet ''0123456789'' ''5158414'' = Inr ''5184023679''"
    by (simp add: generate_keyword_based_ciphertext_alphabet_def)
qed

theorem C6_reorder_by_key_witness:
  "distinct ''0123456789'' \<and> set ''5158414'' \<subseteq> set ''0123456789''
   \<and> generate_keyword_based_ciphertext_alphabet ''0123456789'' ''5158414''
       = Inr (first_occurrences ''5158414'' @ filter (\<lambda>x. x \<notin> set ''5158414'') ''0123456789'')
   \<and> first_occurrences ''5158414'' @ filter (\<lambda>x. x \<notin> set ''5158414'') ''0123456789''
       = ''5184023679''
   \<and> set ''51'' \<subseteq> set ''0123456789'' \<and> CHR ''x'' \<notin> set ''0123456789''
   \<and> generate_keyword_based_ciphertext_alphabet ''0123456789'' (''51'' @ CHR ''x'' # ''4'')
       = Inl (ValueError ''Keyword contains character not contained in the alphabet: x'')"
proof -
  have h1: "distinct ''0123456789''" by simp
  have h2: "\<forall>c\<in>set ''5158414''. c \<in> set ''0123456789''" by simp
  have h3: "\<forall>c\<in>set ''51''. c \<in> set ''0123456789''" by simp
  have h4: "CHR ''x'' \<notin> set ''0123456789''" by simp
  note a = C6_reorder_by_key [of "''0123456789''" "''5158414''", THEN conjunct2, THEN conjunct1,
      THEN mp, THEN mp, OF h1 h2]
  note b = C6_reorder_by_key [of "''0123456789''" _ "''51''" "CHR ''x''" "''4''",
      THEN conjunct2, THEN conjunct2, THEN conjunct1, THEN mp, THEN mp, OF h3 h4]
  have c: "first_occurrences ''5158414'' @ filter (\<lambda>x. x \<notin> set ''5158414'') ''0123456789''
       = ''5184023679''" by simp
  have d: "''Keyword contains character not contained in the alphabet: '' @ [CHR ''x'']
       = ''Keyword contains character not contained in the alphabet: x''" by simp
  have s1: "set ''5158414'' \<subseteq> set ''0123456789''" by simp
  have s2: "set ''51'' \<subseteq> set ''0123456789''" by simp
  from h1 s1 a c s2 h4 b [unfolded d] show ?thesis by (intro conjI)
qed

subsection \<open>C7: the case-split rule\<close>



subsection \<open>C8: the reordering is a permutation\<close>

text \<open>
  C8: for an alphabet and a key whose characters all occur in the alphabet, the keyword
  reordering succeeds and its result has the length and the multiset of characters of
  the alphabet.
\<close>

theorem C8_reorder_is_permutation:
  assumes "\<forall>c\<in>set key. c \<in> set alphabet"
  shows "\<exists>r. generate_keyword_based_ciphertext_alphabet alphabet key = Inr r
             \<and> length r = length alphabet \<and> mset r = mset alphabet"
proof -
  from assms have "set key \<subseteq> set alphabet \<union> set []" by auto
  from keyword_loop_succeeds [OF this] obtain r where
    r: "generate_keyword_based_ciphertext_alphabet alphabet key = Inr r"
    by (auto simp: generate_keyword_based_ciphertext_alphabet_def)
  from generate_keyword_based_mset [OF r] have m: "mset r = mset alphabet" .
  then have "length r = length alphabet" by (metis size_mset)
  with r m show ?thesis by simp
qed

theorem C8_reorder_is_permutation_witness:
  "set ''5158414'' \<subseteq> set ''0123456789''
   \<and> (\<exists>r. generate_keyword_based_ciphertext_alphabet ''0123456789'' ''5158414'' = Inr r
           \<and> length r = length ''0123456789'' \<and> mset r = mset ''0123456789'')"
proof -
  have h: "\<forall>c\<in>set ''5158414''. c \<in> set ''0123456789''" by simp
  have s: "set ''5158414'' \<subseteq> set ''0123456789''" by simp
  from C8_reorder_is_permutation [OF h] s show ?thesis by (intro conjI)
qed

subsection \<open>C9: encrypt and decrypt are total\<close>

text \<open>
  C9: on a constructed cipher, \<open>encrypt\<close> and \<open>decrypt\<close> return a result for every input
  string and raise nothing; the result has the length of the input, and a character of
  the input that is not in the plaintext alphabet stands unchanged at its position.
\<close>

theorem C9_encrypt_decrypt_total:
  assumes "Cipher_init c p = Inr self"
  shows "(\<exists>r. encrypt self s = Inr r \<and> length r = length s
              \<and> (\<forall>i<length s. s ! i \<notin> set (plaintext_list self) \<longrightarrow> r ! i = s ! i))
       \<and> (\<exists>r. decrypt self s = Inr r \<and> length r = length s
              \<and> (\<forall>i<length s. s ! i \<notin> set (plaintext_list self) \<longrightarrow> r ! i = s ! i))"
proof -
  have p: "plaintext_list self = p"
    using Cipher_init_Inr(3) [OF assms] by simp
  show ?thesis
    by (simp add: apply_mapping_Cipher [OF assms] p substitute_outside)
qed

theorem C9_encrypt_decrypt_total_witness:
  "Cipher_init ''bca'' ''abc''
     = Inr \<lparr>plaintext_list = ''abc'', ciphertext_list = ''bca'', inverse_list = ''cab''\<rparr>
   \<and> encrypt \<lparr>plaintext_list = ''abc'', ciphertext_list = ''bca'', inverse_list = ''cab''\<rparr> ''a b!''
       = Inr ''b c!''
   \<and> decrypt \<lparr>plaintext_list = ''abc'', ciphertext_list = ''bca'', inverse_list = ''cab''\<rparr> ''b c!''
       = Inr ''a b!''"
proof -
  have init: "Cipher_init ''bca'' ''abc''
     = Inr \<lparr>plaintext_list = ''abc'', ciphertext_list = ''bca'', inverse_list = ''cab''\<rparr>"
    using Cipher_init_success [of "''abc''" "''bca''"] by auto
  from C9_encrypt_decrypt_total [OF init] init show ?thesis
    by (simp add: encrypt_def decrypt_def)
qed

subsection \<open>C10: round trip in the opposite direction\<close>

text \<open>
  C10: for a cipher constructed from alphabets without repeated characters and every
  string \<open>s\<close>, \<open>encrypt(decrypt(s)) == s\<close>, whether or not the characters of \<open>s\<close> belong
  to the alphabet.
\<close>

theorem C10_encrypt_decrypt:
  assumes "Cipher_init c p = Inr self" and "distinct p" and "distinct c"
  shows "\<exists>t. decrypt self s = Inr t \<and> encrypt self t = Inr s"
proof -
  note init = Cipher_init_Inr(1,2) [OF assms(1)]
  have "map (substitute p c) (map (substitute p (map (\<lambda>x. p ! the (list_index c x)) p)) s) = s"
    by (simp add: encrypt_decrypt_char [OF assms(2) init] map_idI)
  then show ?thesis
    by (simp add: apply_mapping_Cipher [OF assms(1)])
qed

theorem C10_encrypt_decrypt_witness:
  "Cipher_init ''bca'' ''abc''
     = Inr \<lparr>plaintext_list = ''abc'', ciphertext_list = ''bca'', inverse_list = ''cab''\<rparr>
   \<and> distinct ''abc'' \<and> distinct ''bca''
   \<and> (\<exists>t. decrypt \<lparr>plaintext_list = ''abc'', ciphertext_list = ''bca'', inverse_list = ''cab''\<rparr>
               ''a cab!'' = Inr t
          \<and> encrypt \<lparr>plaintext_list = ''abc'', ciphertext_list = ''bca'', inverse_list = ''cab''\<rparr> t
               = Inr ''a cab!'')"
proof -
  have init: "Cipher_init ''bca'' ''abc''
     = Inr \<lparr>plaintext_list = ''abc'', ciphertext_list = ''bca'', inverse_list = ''cab''\<rparr>"
    using Cipher_init_success [of "''abc''" "''bca''"] by auto
  have d: "distinct ''abc''" "distinct ''bca''" by simp_all
  from C10_encrypt_decrypt [OF init d, of "''a cab!''"] init d show ?thesis by blast
qed

end
